theory Spec2Isabelle
  imports Complex_Main "HOL-Library.Word"
begin

section \<open>JavaScript strings\<close>

text \<open>
  A JavaScript string is a sequence of UTF-16 code units; \<open>length\<close>, indexing and a regular
  expression without the \<open>u\<close> flag all work on code units. \<open>js\<close> embeds an ASCII literal.
\<close>

type_synonym jschar = "16 word"
type_synonym jsstring = "jschar list"

definition js :: "string \<Rightarrow> jsstring" where
  "js s = map of_char s"

section \<open>The regular expression of \<open>extractVideoId\<close> (App.js, lines 13-17)\<close>

text \<open>
  Character classes used by the pattern. Without the \<open>s\<close> flag the dot matches every code
  unit except the four line terminators; \<open>\w\<close> is \<open>[A-Za-z0-9_]\<close>; the class of the
  second group is \<open>[^#&?]\<close>.
\<close>

definition lineTerminator :: "jschar \<Rightarrow> bool" where
  "lineTerminator c \<longleftrightarrow> c = 0x000A \<or> c = 0x000D \<or> c = 0x2028 \<or> c = 0x2029"

definition dot :: "jschar \<Rightarrow> bool" where
  "dot c \<longleftrightarrow> \<not> lineTerminator c"

definition wordChar :: "jschar \<Rightarrow> bool" where
  "wordChar c \<longleftrightarrow>
     (0x61 \<le> c \<and> c \<le> 0x7A) \<or> (0x41 \<le> c \<and> c \<le> 0x5A) \<or> (0x30 \<le> c \<and> c \<le> 0x39) \<or> c = 0x5F"

definition tokenChar :: "jschar \<Rightarrow> bool" where
  "tokenChar c \<longleftrightarrow>
     c \<noteq> of_char CHR ''#'' \<and> c \<noteq> of_char CHR ''&'' \<and> c \<noteq> of_char CHR ''?''"

definition lit :: "char \<Rightarrow> jschar \<Rightarrow> bool" where
  "lit ch c \<longleftrightarrow> c = of_char ch"

text \<open>
  The fragment of regular-expression syntax the pattern is written in: the start anchor,
  one code unit of a class, the greedy star of a class, sequence, ordered alternative and
  a numbered capture group.
\<close>

datatype rx = Eps | Bol | Cls "jschar \<Rightarrow> bool" | Star "jschar \<Rightarrow> bool"
  | Seq rx rx | Alt rx rx | Grp nat rx

type_synonym caps = "nat \<rightharpoonup> nat \<times> nat"

text \<open>
  The backtracking matcher, as the list of all ways to match from position \<open>i\<close> in the
  order in which backtracking tries them: the first alternative before the second, more
  iterations of a greedy star before fewer. Each result is the end position with the
  captures (start and end index of each group) made on the way.
\<close>

fun rx_run :: "rx \<Rightarrow> jsstring \<Rightarrow> nat \<times> caps \<Rightarrow> (nat \<times> caps) list" where
  "rx_run Eps u (i, c) = [(i, c)]"
| "rx_run Bol u (i, c) = (if i = 0 then [(i, c)] else [])"
| "rx_run (Cls p) u (i, c) = (if i < length u \<and> p (u ! i) then [(Suc i, c)] else [])"
| "rx_run (Star p) u (i, c) =
     map (\<lambda>j. (j, c)) (rev [i ..< Suc (i + length (takeWhile p (drop i u)))])"
| "rx_run (Seq a b) u (i, c) = concat (map (rx_run b u) (rx_run a u (i, c)))"
| "rx_run (Alt a b) u (i, c) = rx_run a u (i, c) @ rx_run b u (i, c)"
| "rx_run (Grp n a) u (i, c) = map (\<lambda>(j, c'). (j, c'(n \<mapsto> (i, j)))) (rx_run a u (i, c))"

fun lits :: "string \<Rightarrow> rx" where
  "lits [] = Eps"
| "lits [ch] = Cls (lit ch)"
| "lits (ch # cs) = Seq (Cls (lit ch)) (lits cs)"

text \<open>
  \<open>String.prototype.match\<close> with a pattern that has no \<open>g\<close> flag: the match is tried at
  the start indices \<open>0, 1, ..., length\<close> in turn and the first success is returned as the
  array of captured substrings (index 0 is the whole match); no success is \<open>null\<close>.
\<close>

definition first_of :: "'a list \<Rightarrow> 'a option" where
  "first_of xs = (case xs of [] \<Rightarrow> None | x # _ \<Rightarrow> Some x)"

definition rx_exec :: "rx \<Rightarrow> jsstring \<Rightarrow> (nat \<Rightarrow> jsstring option) option" where
  "rx_exec r u =
     map_option (\<lambda>(e, c) k. map_option (\<lambda>(a, b). take (b - a) (drop a u)) (c k))
       (first_of (concat (map (\<lambda>i. rx_run (Grp 0 r) u (i, Map.empty)) [0 ..< Suc (length u)])))"

text \<open>
  \<^verbatim>\<open>/^.*(youtu.be\/|v\/|u\/\w\/|embed\/|watch\?v=|&v=)([^#&?]*).*/\<close>
  The dot of \<open>youtu.be\<close> is not escaped in the source, so it is the wildcard.
\<close>

definition alternatives :: rx where
  "alternatives =
     Alt (Seq (lits ''youtu'') (Seq (Cls dot) (lits ''be/'')))
    (Alt (lits ''v/'')
    (Alt (Seq (lits ''u/'') (Seq (Cls wordChar) (lits ''/'')))
    (Alt (lits ''embed/'')
    (Alt (lits ''watch?v='')
         (lits ''&v='')))))"

definition regExp :: rx where
  "regExp = Seq Bol (Seq (Star dot) (Seq (Grp 1 alternatives)
              (Seq (Grp 2 (Star tokenChar)) (Star dot))))"

text \<open>
  \<^verbatim>\<open>return (match && match[2].length === 11) ? match[2] : null;\<close>
  \<open>None\<close> is \<open>null\<close>. The second group takes part in every match of this pattern
  (lemma \<open>regExp_group2\<close>), so \<open>match[2]\<close> is never \<open>undefined\<close>.
\<close>

definition extractVideoId :: "jsstring \<Rightarrow> jsstring option" where
  "extractVideoId url =
     (case rx_exec regExp url of
        None \<Rightarrow> None
      | Some match \<Rightarrow>
          (case match 2 of
             None \<Rightarrow> None
           | Some g \<Rightarrow> if length g = 11 then Some g else None))"

text \<open>
  The same in direct terms, for stating what the pattern finds. \<open>marker_len w\<close> is the length
  of the alternative of the first group that matches at the start of \<open>w\<close>, and
  \<open>token_after u j\<close> is what the second group captures when the first group matches at
  index \<open>j\<close> of \<open>u\<close>: the longest run of code units other than \<open>#\<close>, \<open>&\<close> and \<open>?\<close>.
\<close>

definition starts :: "string \<Rightarrow> jsstring \<Rightarrow> bool" where
  "starts s w \<longleftrightarrow> take (length s) w = js s"

definition marker_len :: "jsstring \<Rightarrow> nat option" where
  "marker_len w =
     (if starts ''youtu'' w \<and> 5 < length w \<and> dot (w ! 5) \<and> starts ''be/'' (drop 6 w) then Some 9
      else if starts ''v/'' w then Some 2
      else if starts ''u/'' w \<and> 2 < length w \<and> wordChar (w ! 2) \<and> starts ''/'' (drop 3 w)
        then Some 4
      else if starts ''embed/'' w then Some 6
      else if starts ''watch?v='' w then Some 8
      else if starts ''&v='' w then Some 3
      else None)"

definition token_after :: "jsstring \<Rightarrow> nat \<Rightarrow> jsstring option" where
  "token_after u j =
     map_option (\<lambda>n. takeWhile tokenChar (drop (j + n) u)) (marker_len (drop j u))"

text \<open>
  A recognised video link inside a URL: a marker at index \<open>j\<close> followed by the token \<open>tok\<close> of
  exactly 11 code units, which ends at the end of the URL or before \<open>#\<close>, \<open>&\<close> or \<open>?\<close>.
\<close>

definition video_link :: "jsstring \<Rightarrow> nat \<Rightarrow> jsstring \<Rightarrow> bool" where
  "video_link u j tok \<longleftrightarrow> token_after u j = Some tok \<and> length tok = 11"

definition has_video_link :: "jsstring \<Rightarrow> bool" where
  "has_video_link u \<longleftrightarrow>
     list_ex (\<lambda>j. case token_after u j of None \<Rightarrow> False | Some t \<Rightarrow> length t = 11)
       [0 ..< length u]"

definition no_marker_after :: "jsstring \<Rightarrow> nat \<Rightarrow> bool" where
  "no_marker_after u j \<longleftrightarrow>
     list_all (\<lambda>k. marker_len (drop k u) = None) [Suc j ..< length u]"

section \<open>Numbers\<close>

text \<open>
  JavaScript numbers are IEEE 754 doubles. \<open>fl\<close> rounds a rational to the nearest number
  with a 53-bit significand, ties to the even significand, which is what one arithmetic
  operation does to its exact result. The exponent range is not modelled: the values below
  are chunk counts and percentages, far from overflow and from the subnormal numbers.
\<close>

function bitlen :: "int \<Rightarrow> nat" where
  "bitlen n = (if n \<le> 0 then 0 else Suc (bitlen (n div 2)))"
  by pat_completeness auto
termination
  by (relation "measure nat") auto

definition pow2 :: "int \<Rightarrow> rat" where
  "pow2 e = (if 0 \<le> e then 2 ^ nat e else 1 / 2 ^ nat (- e))"

definition ilog2 :: "rat \<Rightarrow> int" where
  "ilog2 a =
     (let (p, q) = quotient_of a;
          e = int (bitlen p) - int (bitlen q)
      in if pow2 e \<le> a then e else e - 1)"

definition fl :: "rat \<Rightarrow> rat" where
  "fl x =
     (if x = 0 then 0
      else
        let a = \<bar>x\<bar>;
            ulp = pow2 (ilog2 a - 52);
            q = a / ulp;
            n = \<lfloor>q\<rfloor>;
            r = q - of_int n;
            m = (if r < 1 / 2 then n else if 1 / 2 < r then n + 1
                 else if even n then n else n + 1)
        in sgn x * of_int m * ulp)"

definition fdiv :: "rat \<Rightarrow> rat \<Rightarrow> rat" where
  "fdiv x y = fl (x / y)"

definition fmul :: "rat \<Rightarrow> rat \<Rightarrow> rat" where
  "fmul x y = fl (x * y)"

text \<open>\<open>Math.round\<close>: the nearest integer, a tie going up.\<close>

definition Math_round :: "rat \<Rightarrow> int" where
  "Math_round x = \<lfloor>x + 1 / 2\<rfloor>"

text \<open>
  \<^verbatim>\<open>Math.round((status.processed_chunks / status.total_chunks) * 100)\<close>
  on two counts as \<open>JSON.parse\<close> delivers them (each the nearest double).
\<close>

definition percentage :: "int \<Rightarrow> int \<Rightarrow> int" where
  "percentage p t = Math_round (fmul (fdiv (fl (of_int p)) (fl (of_int t))) 100)"

section \<open>Component state (App.js, lines 5-11)\<close>

text \<open>
  A transcript segment as the server sends it, and as the component stores it, with the
  sequence number the component adds.
\<close>

record segment =
  key :: jsstring
  start_time :: jsstring
  english :: jsstring
  pronunciation_hindi :: jsstring
  translation_hindi :: jsstring

record sentence = segment +
  sentence_number :: nat

text \<open>The responses of the three endpoints, and the ways a \<open>fetch\<close> or \<open>json()\<close> fails.\<close>

record start_res =
  task_id :: "jsstring option"

record status_res =
  status :: jsstring
  processed_chunks :: int
  total_chunks :: int

record transcript_res =
  res_sentences :: "segment list"
  last_key :: "jsstring option"

datatype js_error = NetworkError | SyntaxError | TypeError

type_synonym 'a reply = "js_error + 'a"

datatype request =
    POST_start_processing jsstring
  | GET_task_status jsstring
  | GET_transcript jsstring "jsstring option"

text \<open>
  The interval created by the effect. Its callback is a closure: it reads the \<open>taskId\<close>,
  \<open>lastKey\<close> and \<open>sentences\<close> of the render in which the effect ran, not the current ones.
\<close>

record timer =
  t_taskId :: jsstring
  t_lastKey :: "jsstring option"
  t_count :: nat
  t_delay :: nat

text \<open>
  The six state variables, the live interval, the dependency values of the last run of the
  effect, and what the component has sent out: diagnostics, requests and calls of the
  player's \<open>seekTo\<close>. \<open>None\<close> is \<open>null\<close> (or \<open>undefined\<close>).
\<close>

record app =
  url :: jsstring
  taskId :: "jsstring option"
  sentences :: "sentence list"
  lastKey :: "jsstring option"
  isProcessing :: bool
  progress :: int
  pollInterval :: "timer option"
  effectDeps :: "(jsstring option \<times> jsstring option \<times> nat) option"
  console :: "(string \<times> js_error) list"
  requests :: "request list"
  seekCalls :: "(int option \<times> bool) list"

definition App :: app where
  "App = \<lparr>url = [], taskId = None, sentences = [], lastKey = None, isProcessing = False,
          progress = 0, pollInterval = None, effectDeps = None, console = [],
          requests = [], seekCalls = []\<rparr>"

text \<open>A string or \<open>null\<close> in a condition: \<open>null\<close> and the empty string are falsy.\<close>

definition truthy :: "jsstring option \<Rightarrow> bool" where
  "truthy v = (case v of None \<Rightarrow> False | Some s \<Rightarrow> s \<noteq> [])"

section \<open>The polling effect (App.js, lines 41-82)\<close>

text \<open>The dependency array \<^verbatim>\<open>[taskId, lastKey, sentences.length]\<close>.\<close>

definition deps :: "app \<Rightarrow> jsstring option \<times> jsstring option \<times> nat" where
  "deps s = (taskId s, lastKey s, length (sentences s))"

text \<open>
  The body of the effect: nothing without a task handle, otherwise \<open>setInterval\<close> of the
  polling callback every 2500 ms.
\<close>

definition effect :: "app \<Rightarrow> app" where
  "effect s =
     (case taskId s of
        None \<Rightarrow> s
      | Some t \<Rightarrow>
          if t = [] then s
          else s\<lparr>pollInterval :=
                   Some \<lparr>t_taskId = t, t_lastKey = lastKey s,
                         t_count = length (sentences s), t_delay = 2500\<rparr>\<rparr>)"

text \<open>
  What React does with the effect after the state updates of an event have been rendered:
  when a dependency has changed, the cleanup of the previous run (\<open>clearInterval\<close>) and then
  the effect again; otherwise nothing.
\<close>

definition commit :: "app \<Rightarrow> app" where
  "commit s =
     (if effectDeps s = Some (deps s) then s
      else effect (s\<lparr>pollInterval := None, effectDeps := Some (deps s)\<rparr>))"

text \<open>\<^verbatim>\<open>{...sentence, sentence_number: n}\<close>\<close>

definition with_number :: "nat \<Rightarrow> segment \<Rightarrow> sentence" where
  "with_number n x =
     \<lparr>key = key x, start_time = start_time x, english = english x,
      pronunciation_hindi = pronunciation_hindi x, translation_hindi = translation_hindi x,
      sentence_number = n\<rparr>"

text \<open>\<^verbatim>\<open>xs.map((sentence, i) => ({...sentence, sentence_number: startNum + i}))\<close>\<close>

definition number_from :: "nat \<Rightarrow> segment list \<Rightarrow> sentence list" where
  "number_from startNum xs = map (\<lambda>(i, x). with_number (startNum + i) x) (enumerate 0 xs)"

text \<open>\<^verbatim>\<open>console.error('Polling error:', error)\<close>\<close>

definition log_polling :: "js_error \<Rightarrow> app \<Rightarrow> app" where
  "log_polling e s = s\<lparr>console := console s @ [(''Polling error:'', e)]\<rparr>"

text \<open>
  One run of the interval callback \<open>c\<close> (lines 44-79) against the replies the two requests
  get. A failed request leaves the \<open>try\<close> block at that point: what was done before stays
  done, the rest is skipped, and the \<open>catch\<close> logs. A transcript reply without the field
  \<open>sentences\<close> is read as one with the empty list (line 61 treats both alike).
\<close>

definition pollCallback :: "timer \<Rightarrow> status_res reply \<Rightarrow> transcript_res reply \<Rightarrow> app \<Rightarrow> app" where
  "pollCallback c statusRes transcriptRes s =
     (let s1 = s\<lparr>requests := requests s @ [GET_task_status (t_taskId c)]\<rparr> in
      case statusRes of
        Inl e \<Rightarrow> log_polling e s1
      | Inr st \<Rightarrow>
          let s2 = (if 0 < total_chunks st
                    then s1\<lparr>progress := percentage (processed_chunks st) (total_chunks st)\<rparr>
                    else s1);
              s3 = s2\<lparr>requests := requests s2 @
                     [GET_transcript (t_taskId c)
                        (if truthy (t_lastKey c) then t_lastKey c else None)]\<rparr>
          in (case transcriptRes of
                Inl e \<Rightarrow> log_polling e s3
              | Inr data \<Rightarrow>
                  let s4 = (if res_sentences data \<noteq> []
                            then s3\<lparr>sentences := sentences s3 @
                                       number_from (t_count c + 1) (res_sentences data),
                                     lastKey := last_key data\<rparr>
                            else s3)
                  in if status st = js ''completed''
                     then s4\<lparr>pollInterval := None, isProcessing := False\<rparr>
                     else s4))"

text \<open>
  A polling tick: the live interval fires, its callback runs, React renders and commits.
  Without a live interval there is no tick.
\<close>

definition tick :: "status_res reply \<times> transcript_res reply \<Rightarrow> app \<Rightarrow> app" where
  "tick r s =
     (case pollInterval s of
        None \<Rightarrow> s
      | Some c \<Rightarrow> commit (pollCallback c (fst r) (snd r) s))"

fun ticks :: "(status_res reply \<times> transcript_res reply) list \<Rightarrow> app \<Rightarrow> app" where
  "ticks [] s = s"
| "ticks (r # rs) s = ticks rs (tick r s)"

text \<open>The segments a tick receives, and those a sequence of ticks receives, in order.\<close>

definition delivered :: "status_res reply \<times> transcript_res reply \<Rightarrow> app \<Rightarrow> segment list" where
  "delivered r s =
     (case pollInterval s of
        None \<Rightarrow> []
      | Some c \<Rightarrow>
          (case fst r of
             Inl e \<Rightarrow> []
           | Inr st \<Rightarrow> (case snd r of Inl e \<Rightarrow> [] | Inr data \<Rightarrow> res_sentences data)))"


text \<open>
  Between two events the interval, when there is one, holds the values of the current
  render: every change of a dependency has run the effect again.
\<close>

definition synced :: "app \<Rightarrow> bool" where
  "synced s \<longleftrightarrow>
     effectDeps s = Some (deps s) \<and>
     (case pollInterval s of
        None \<Rightarrow> True
      | Some c \<Rightarrow>
          taskId s = Some (t_taskId c) \<and> t_taskId c \<noteq> [] \<and> t_lastKey c = lastKey s \<and>
          t_count c = length (sentences s) \<and> t_delay c = 2500)"

section \<open>Submission (App.js, lines 19-39)\<close>

text \<open>
  \<open>startProcessing\<close> against the reply the request gets. \<open>Inl\<close> is a rejected \<open>fetch\<close> or
  \<open>json()\<close>, or a body with no fields to read.
\<close>

definition startProcessing :: "start_res reply \<Rightarrow> app \<Rightarrow> app" where
  "startProcessing response s =
     (if url s = [] then s
      else
        let s1 = s\<lparr>isProcessing := True, sentences := [], lastKey := None\<rparr>;
            s2 = s1\<lparr>requests := requests s1 @ [POST_start_processing (url s)]\<rparr>
        in case response of
             Inr data \<Rightarrow> s2\<lparr>taskId := task_id data\<rparr>
           | Inl error \<Rightarrow>
               s2\<lparr>console := console s2 @ [(''Failed to start processing:'', error)],
                  isProcessing := False\<rparr>)"

text \<open>\<^verbatim>\<open>onChange={(e) => setUrl(e.target.value)}\<close>\<close>

definition setUrl :: "jsstring \<Rightarrow> app \<Rightarrow> app" where
  "setUrl v s = s\<lparr>url := v\<rparr>"

section \<open>Timestamp seek (App.js, lines 84-91)\<close>

text \<open>\<^verbatim>\<open>timeStr.split(':')\<close>\<close>

fun split_on :: "jschar \<Rightarrow> jsstring \<Rightarrow> jsstring list" where
  "split_on d [] = [[]]"
| "split_on d (c # cs) =
     (if c = d then [] # split_on d cs
      else (case split_on d cs of [] \<Rightarrow> [[c]] | p # ps \<Rightarrow> (c # p) # ps))"

text \<open>
  \<open>Number\<close> on a string, for the strings whose value is a whole number that the arithmetic
  of line 88 keeps exact: at most twelve decimal digits and nothing else (the empty string
  is 0). \<open>None\<close> stands for every other result: \<open>NaN\<close>, a fraction, a number too large.
\<close>

definition digit :: "jschar \<Rightarrow> bool" where
  "digit c \<longleftrightarrow> 0x30 \<le> c \<and> c \<le> 0x39"

definition digitValue :: "jschar \<Rightarrow> int" where
  "digitValue c = uint c - 48"

definition Number :: "jsstring \<Rightarrow> int option" where
  "Number str =
     (if list_all digit str \<and> length str \<le> 12
      then Some (foldl (\<lambda>n c. 10 * n + digitValue c) 0 str)
      else None)"

text \<open>
  \<^verbatim>\<open>const [hours, minutes, seconds] = timeStr.split(':').map(Number);\<close>
  \<^verbatim>\<open>const totalSeconds = hours * 3600 + minutes * 60 + seconds;\<close>
  A missing part is \<open>undefined\<close> and the sum is \<open>NaN\<close>.
\<close>

definition totalSeconds :: "jsstring \<Rightarrow> int option" where
  "totalSeconds timeStr =
     (case map Number (split_on (of_char CHR '':'') timeStr) of
        Some hours # Some minutes # Some seconds # _ \<Rightarrow>
          Some (hours * 3600 + minutes * 60 + seconds)
      | _ \<Rightarrow> None)"

text \<open>
  \<open>playerRef\<close> is attached to the \<open>iframe\<close>, which is rendered only when the URL yields a
  video identifier (lines 93 and 122-130); otherwise \<open>playerRef.current\<close> is \<open>null\<close>.
  The player behind the \<open>iframe\<close> is not part of the repository. Modelled from the spec:
  it exposes a seek operation that takes the seconds and the exact-seek flag; each call of
  it is recorded in \<open>seekCalls\<close>.
\<close>

definition playerMounted :: "app \<Rightarrow> bool" where
  "playerMounted s \<longleftrightarrow> extractVideoId (url s) \<noteq> None"

definition seekToTime :: "jsstring \<Rightarrow> app \<Rightarrow> app" where
  "seekToTime timeStr s =
     (if \<not> playerMounted s then s
      else s\<lparr>seekCalls := seekCalls s @ [(totalSeconds timeStr, True)]\<rparr>)"

section \<open>Events (App.js, lines 95-157)\<close>

text \<open>
  The states of the component: it is mounted, and then each event runs its handler and React
  commits. The input is disabled while the Processing Flag is set, the button while it is
  set or the URL is empty; an entry of the transcript seeks to its own start time.
\<close>

inductive reachable :: "app \<Rightarrow> bool" where
  mount: "reachable (commit App)"
| onChange: "reachable s \<Longrightarrow> \<not> isProcessing s \<Longrightarrow> reachable (commit (setUrl v s))"
| onClick_start:
    "reachable s \<Longrightarrow> \<not> isProcessing s \<Longrightarrow> url s \<noteq> [] \<Longrightarrow>
     reachable (commit (startProcessing response s))"
| interval: "reachable s \<Longrightarrow> reachable (tick r s)"
| onClick_sentence:
    "reachable s \<Longrightarrow> x \<in> set (sentences s) \<Longrightarrow>
     reachable (commit (seekToTime (start_time x) s))"

section \<open>The end-to-end scenario of the specification\<close>

text \<open>
  Inputs for the examples below: a segment with a key and a start time, the component after
  a URL has been typed, the component after the submission of that URL has returned the
  task handle \<open>t1\<close>, and the two replies a tick gets (status with both counts, then either
  segments with a new cursor or a failed transcript request).
\<close>

definition seg :: "string \<Rightarrow> string \<Rightarrow> segment" where
  "seg k t = \<lparr>key = js k, start_time = js t, english = js ''hello'',
              pronunciation_hindi = js ''helo'', translation_hindi = js ''namaste''\<rparr>"

definition typed :: "string \<Rightarrow> app" where
  "typed u = commit (setUrl (js u) (commit App))"

definition submitted :: "string \<Rightarrow> app" where
  "submitted u = commit (startProcessing (Inr \<lparr>task_id = Some (js ''t1'')\<rparr>) (typed u))"

definition reply ::
  "string \<Rightarrow> int \<Rightarrow> int \<Rightarrow> segment list \<Rightarrow> string \<Rightarrow>
     status_res reply \<times> transcript_res reply" where
  "reply st p t xs k =
     (Inr \<lparr>status = js st, processed_chunks = p, total_chunks = t\<rparr>,
      Inr \<lparr>res_sentences = xs, last_key = Some (js k)\<rparr>)"

definition reply_failed ::
  "string \<Rightarrow> int \<Rightarrow> int \<Rightarrow> status_res reply \<times> transcript_res reply" where
  "reply_failed st p t =
     (Inr \<lparr>status = js st, processed_chunks = p, total_chunks = t\<rparr>, Inl NetworkError)"

definition task1 :: app where
  "task1 = submitted ''https://youtu.be/ABCDEFGHIJK''"

definition poll1 :: "status_res reply \<times> transcript_res reply" where
  "poll1 = reply ''processing'' 1 4 [seg ''k1'' ''00:00:01'', seg ''k2'' ''00:01:05''] ''k2''"

definition poll2 :: "status_res reply \<times> transcript_res reply" where
  "poll2 = reply ''completed'' 4 4 [seg ''k3'' ''00:01:09''] ''k3''"

definition poll_done :: "status_res reply \<times> transcript_res reply" where
  "poll_done =
     (Inr \<lparr>status = js ''completed'', processed_chunks = 4, total_chunks = 4\<rparr>,
      Inr \<lparr>res_sentences = [], last_key = None\<rparr>)"

definition link_with_parameter :: jsstring where
  "link_with_parameter = js ''https://www.youtube.com/watch?v=ABCDEFGHIJK&t=10s''"

definition link_with_later_marker :: jsstring where
  "link_with_later_marker =
     js ''https://www.youtube.com/embed/ABCDEFGHIJK?origin=https://example.tv/''"

definition shorts_link :: string where
  "shorts_link = ''https://www.youtube.com/shorts/ABCDEFGHIJK''"

section \<open>Lists of results\<close>

lemma first_of_simps [simp]: "first_of [] = None" "first_of (x # xs) = Some x"
  by (simp_all add: first_of_def)

lemma first_of_append: "first_of (xs @ ys) = (if xs = [] then first_of ys else first_of xs)"
  by (cases xs) simp_all

lemma first_of_map: "first_of (map f xs) = map_option f (first_of xs)"
  by (cases xs) simp_all

lemma first_of_concat_map:
  "first_of (concat (map f xs)) =
     (case find (\<lambda>x. f x \<noteq> []) xs of None \<Rightarrow> None | Some x \<Rightarrow> first_of (f x))"
  by (induction xs) (simp_all add: first_of_append)

lemma take_Suc_drop_eq:
  "take (Suc n) (drop i u) = x # xs \<longleftrightarrow>
     i < length u \<and> u ! i = x \<and> take n (drop (Suc i) u) = xs"
proof (cases "i < length u")
  case True
  then have "drop i u = u ! i # drop (Suc i) u"
    by (simp add: Cons_nth_drop_Suc)
  with True show ?thesis by simp
next
  case False
  then show ?thesis by simp
qed

text \<open>The last index up to \<open>L\<close> with a property, as the greedy star finds it.\<close>

lemma find_last_upto:
  "find P (rev [0 ..< Suc L]) = Some j \<longleftrightarrow>
     j \<le> L \<and> P j \<and> (\<forall>k. j < k \<and> k \<le> L \<longrightarrow> \<not> P k)"
proof (induction L)
  case 0
  then show ?case by auto
next
  case (Suc L)
  show ?case
  proof (cases "P (Suc L)")
    case True
    have "j = Suc L" if "j \<le> Suc L" and "\<forall>k. j < k \<and> k \<le> Suc L \<longrightarrow> \<not> P k"
    proof (rule ccontr)
      assume "j \<noteq> Suc L"
      with that(1) have "j < Suc L" by simp
      with that(2) True show False by blast
    qed
    with True show ?thesis by auto
  next
    case False
    have "find P (rev [0 ..< Suc (Suc L)]) = find P (rev [0 ..< Suc L])"
      using False by simp
    also have "\<dots> = Some j \<longleftrightarrow> j \<le> L \<and> P j \<and> (\<forall>k. j < k \<and> k \<le> L \<longrightarrow> \<not> P k)"
      by (rule Suc.IH)
    also have "\<dots> \<longleftrightarrow> j \<le> Suc L \<and> P j \<and> (\<forall>k. j < k \<and> k \<le> Suc L \<longrightarrow> \<not> P k)"
      using False by (metis le_Suc_eq)
    finally show ?thesis .
  qed
qed

lemma prefix_le_takeWhile:
  assumes "list_all P (take j u)" and "j \<le> length u"
  shows "j \<le> length (takeWhile P u)"
proof -
  have "takeWhile P u = takeWhile P (take j u @ drop j u)" by simp
  also have "\<dots> = take j u @ takeWhile P (drop j u)"
    using assms(1) by (intro takeWhile_append2) (simp add: list_all_iff)
  finally show ?thesis using assms(2) by simp
qed

section \<open>What the pattern matches\<close>

lemma rx_run_lits:
  "rx_run (lits s) u (i, c) = (if starts s (drop i u) then [(i + length s, c)] else [])"
proof (induction s arbitrary: i rule: lits.induct)
  case 1
  show ?case by (simp add: starts_def js_def)
next
  case (2 ch)
  show ?case
    using take_Suc_drop_eq[of 0 i u "of_char ch" "[]"]
    by (auto simp: starts_def js_def lit_def)
next
  case (3 ch v va)
  show ?case
    using take_Suc_drop_eq[of "Suc (length va)" i u "of_char ch" "js (v # va)"] "3.IH"[of "Suc i"]
    by (auto simp: starts_def js_def lit_def)
qed

declare lits.simps [simp del]

lemma starts_hd: "starts (a # s) w \<Longrightarrow> hd w = of_char a"
  by (cases w) (simp_all add: starts_def js_def)

lemma alt_youtu_be:
  "rx_run (Seq (lits ''youtu'') (Seq (Cls dot) (lits ''be/''))) u (i, c) =
      (if starts ''youtu'' (drop i u) \<and> 5 < length (drop i u) \<and> dot (drop i u ! 5) \<and>
          starts ''be/'' (drop 6 (drop i u))
       then [(i + 9, c)] else [])"
  by (auto simp: rx_run_lits eval_nat_numeral less_diff_conv add.commute)

lemma alt_u_w:
  "rx_run (Seq (lits ''u/'') (Seq (Cls wordChar) (lits ''/''))) u (i, c) =
      (if starts ''u/'' (drop i u) \<and> 2 < length (drop i u) \<and> wordChar (drop i u ! 2) \<and>
          starts ''/'' (drop 3 (drop i u))
       then [(i + 4, c)] else [])"
  by (auto simp: rx_run_lits eval_nat_numeral less_diff_conv add.commute)

text \<open>
  No two alternatives begin with the same code unit, so at most one of them matches at a
  position and the ordered choice is a choice of the one that does.
\<close>

lemma first_alternative:
  fixes f :: "nat \<Rightarrow> 'a"
  assumes "a1 \<Longrightarrow> \<not> a2 \<and> \<not> a3 \<and> \<not> a4 \<and> \<not> a5 \<and> \<not> a6"
    and "a2 \<Longrightarrow> \<not> a3 \<and> \<not> a4 \<and> \<not> a5 \<and> \<not> a6"
    and "a3 \<Longrightarrow> \<not> a4 \<and> \<not> a5 \<and> \<not> a6"
    and "a4 \<Longrightarrow> \<not> a5 \<and> \<not> a6"
    and "a5 \<Longrightarrow> \<not> a6"
  shows "(if a1 then [f n1] else []) @ (if a2 then [f n2] else []) @ (if a3 then [f n3] else []) @
         (if a4 then [f n4] else []) @ (if a5 then [f n5] else []) @ (if a6 then [f n6] else []) =
         (case (if a1 then Some n1 else if a2 then Some n2 else if a3 then Some n3
                else if a4 then Some n4 else if a5 then Some n5 else if a6 then Some n6 else None)
          of None \<Rightarrow> [] | Some n \<Rightarrow> [f n])"
  using assms by (cases a1; cases a2; cases a3; cases a4; cases a5; cases a6) simp_all

lemma rx_run_alternatives:
  "rx_run alternatives u (i, c) =
     (case marker_len (drop i u) of None \<Rightarrow> [] | Some n \<Rightarrow> [(i + n, c)])"
proof -
  define w where "w = drop i u"
  define x where "x = hd w"
  have h: "starts ''youtu'' w \<Longrightarrow> x = 0x79" "starts ''v/'' w \<Longrightarrow> x = 0x76"
    "starts ''u/'' w \<Longrightarrow> x = 0x75" "starts ''embed/'' w \<Longrightarrow> x = 0x65"
    "starts ''watch?v='' w \<Longrightarrow> x = 0x77" "starts ''&v='' w \<Longrightarrow> x = 0x26"
    using starts_hd[of _ _ w] by (auto simp: x_def)
  have l: "rx_run (lits ''v/'') u (i, c) = (if starts ''v/'' w then [(i + 2, c)] else [])"
    "rx_run (lits ''embed/'') u (i, c) = (if starts ''embed/'' w then [(i + 6, c)] else [])"
    "rx_run (lits ''watch?v='') u (i, c) = (if starts ''watch?v='' w then [(i + 8, c)] else [])"
    "rx_run (lits ''&v='') u (i, c) = (if starts ''&v='' w then [(i + 3, c)] else [])"
    by (simp_all add: rx_run_lits w_def)
  show ?thesis
    unfolding alternatives_def rx_run.simps(6) alt_youtu_be alt_u_w l marker_len_def
      w_def[symmetric]
    by (rule first_alternative[where f = "\<lambda>n. (i + n, c)"]) (use h in auto)
qed

text \<open>The second group and the trailing \<open>.*\<close> always match; the longest token comes first.\<close>

lemma rx_run_token_tail:
  "\<exists>e rest. rx_run (Seq (Grp 2 (Star tokenChar)) (Star dot)) u (k, c) =
     (e, c(2 \<mapsto> (k, k + length (takeWhile tokenChar (drop k u))))) # rest"
  by simp

lemma rx_run_groups:
  "rx_run (Seq (Grp 1 alternatives) (Seq (Grp 2 (Star tokenChar)) (Star dot))) u (j, c) =
     (case marker_len (drop j u) of
        None \<Rightarrow> []
      | Some n \<Rightarrow>
          rx_run (Seq (Grp 2 (Star tokenChar)) (Star dot)) u (j + n, c(1 \<mapsto> (j, j + n))))"
  by (simp add: rx_run_alternatives del: rx_run.simps(4) split: option.split)

lemma rx_run_groups_first:
  assumes "first_of (rx_run (Seq (Grp 1 alternatives) (Seq (Grp 2 (Star tokenChar)) (Star dot)))
             u (j, c)) = Some r"
  shows "\<exists>n. marker_len (drop j u) = Some n \<and>
          snd r 2 = Some (j + n, j + n + length (takeWhile tokenChar (drop (j + n) u)))"
proof (cases "marker_len (drop j u)")
  case None
  with assms show ?thesis unfolding rx_run_groups by simp
next
  case (Some n)
  obtain e rest where
    "rx_run (Seq (Grp 2 (Star tokenChar)) (Star dot)) u (j + n, c(1 \<mapsto> (j, j + n))) =
       (e, (c(1 \<mapsto> (j, j + n)))
             (2 \<mapsto> (j + n, j + n + length (takeWhile tokenChar (drop (j + n) u))))) # rest"
    using rx_run_token_tail by blast
  with assms Some show ?thesis unfolding rx_run_groups by auto
qed

lemma rx_run_groups_Nil:
  "rx_run (Seq (Grp 1 alternatives) (Seq (Grp 2 (Star tokenChar)) (Star dot))) u (j, c) = [] \<longleftrightarrow>
     marker_len (drop j u) = None"
proof (cases "marker_len (drop j u)")
  case None
  then show ?thesis unfolding rx_run_groups by simp
next
  case (Some n)
  obtain e rest where
    "rx_run (Seq (Grp 2 (Star tokenChar)) (Star dot)) u (j + n, c(1 \<mapsto> (j, j + n))) =
       (e, (c(1 \<mapsto> (j, j + n)))
             (2 \<mapsto> (j + n, j + n + length (takeWhile tokenChar (drop (j + n) u))))) # rest"
    using rx_run_token_tail by blast
  with Some show ?thesis unfolding rx_run_groups by simp
qed

text \<open>
  The leading \<open>^.*\<close> runs to the first line terminator and gives back one code unit at a
  time, so the groups are tried at the indices of the first line from the last to the first.
\<close>

lemma rx_run_regExp_unfold:
  "rx_run regExp u (0, c) =
     concat (map (\<lambda>j. rx_run (Seq (Grp 1 alternatives) (Seq (Grp 2 (Star tokenChar)) (Star dot)))
                        u (j, c))
       (rev [0 ..< Suc (length (takeWhile dot u))]))"
  unfolding regExp_def
  apply (subst rx_run.simps(5))
  apply (subst rx_run.simps(2))
  apply (simp only: simp_thms if_True list.map concat.simps append_Nil2)
  apply (subst rx_run.simps(5))
  apply (subst rx_run.simps(4))
  apply (simp only: map_map comp_def drop_0 add_0)
  done

lemma first_of_regExp_eq:
  "first_of (rx_run regExp u (0, c)) =
     (case find (\<lambda>j. marker_len (drop j u) \<noteq> None) (rev [0 ..< Suc (length (takeWhile dot u))]) of
        None \<Rightarrow> None
      | Some j \<Rightarrow>
          first_of (rx_run (Seq (Grp 1 alternatives) (Seq (Grp 2 (Star tokenChar)) (Star dot)))
                      u (j, c)))"
proof -
  let ?R = "Seq (Grp 1 alternatives) (Seq (Grp 2 (Star tokenChar)) (Star dot))"
  let ?js = "rev [0 ..< Suc (length (takeWhile dot u))]"
  have "first_of (rx_run regExp u (0, c)) =
      (case find (\<lambda>j. rx_run ?R u (j, c) \<noteq> []) ?js of None \<Rightarrow> None
       | Some j \<Rightarrow> first_of (rx_run ?R u (j, c)))"
    by (simp only: rx_run_regExp_unfold first_of_concat_map)
  also have "(\<lambda>j. rx_run ?R u (j, c) \<noteq> []) = (\<lambda>j. marker_len (drop j u) \<noteq> None)"
    by (simp only: rx_run_groups_Nil)
  finally show ?thesis .
qed

lemma first_of_regExp:
  assumes "first_of (rx_run regExp u (0, c)) = Some r"
  shows "\<exists>j n. find (\<lambda>j. marker_len (drop j u) \<noteq> None)
                 (rev [0 ..< Suc (length (takeWhile dot u))]) = Some j \<and>
           marker_len (drop j u) = Some n \<and>
           snd r 2 = Some (j + n, j + n + length (takeWhile tokenChar (drop (j + n) u)))"
proof -
  let ?R = "Seq (Grp 1 alternatives) (Seq (Grp 2 (Star tokenChar)) (Star dot))"
  let ?js = "rev [0 ..< Suc (length (takeWhile dot u))]"
  from assms obtain j where j: "find (\<lambda>j. marker_len (drop j u) \<noteq> None) ?js = Some j"
    and f: "first_of (rx_run ?R u (j, c)) = Some r"
    unfolding first_of_regExp_eq by (auto split: option.splits)
  from rx_run_groups_first[OF f] j show ?thesis by blast
qed

lemma first_of_regExp_None:
  "first_of (rx_run regExp u (0, c)) = None \<longleftrightarrow>
     find (\<lambda>j. marker_len (drop j u) \<noteq> None) (rev [0 ..< Suc (length (takeWhile dot u))]) = None"
proof (cases "find (\<lambda>j. marker_len (drop j u) \<noteq> None) (rev [0 ..< Suc (length (takeWhile dot u))])")
  case None
  then show ?thesis by (simp add: first_of_regExp_eq)
next
  case (Some j)
  let ?R = "Seq (Grp 1 alternatives) (Seq (Grp 2 (Star tokenChar)) (Star dot))"
  from Some have "marker_len (drop j u) \<noteq> None"
    unfolding find_last_upto by blast
  then have "rx_run ?R u (j, c) \<noteq> []"
    by (simp only: rx_run_groups_Nil not_False_eq_True)
  then have "first_of (rx_run ?R u (j, c)) \<noteq> None"
    by (cases "rx_run ?R u (j, c)") simp_all
  with Some show ?thesis by (simp add: first_of_regExp_eq)
qed

text \<open>The anchor \<open>^\<close> fails at every start index but 0.\<close>

lemma rx_run_not_start: "i \<noteq> 0 \<Longrightarrow> rx_run (Grp 0 regExp) u (i, c) = []"
  by (simp add: regExp_def)

lemma concat_map_start:
  "concat (map (\<lambda>i. rx_run (Grp 0 regExp) u (i, c)) [0 ..< Suc n]) =
     rx_run (Grp 0 regExp) u (0, c)"
proof -
  have "[0 ..< Suc n] = 0 # [Suc 0 ..< Suc n]"
    by (simp add: upt_conv_Cons del: upt_Suc)
  moreover have "concat (map (\<lambda>i. rx_run (Grp 0 regExp) u (i, c)) [Suc 0 ..< Suc n]) = []"
    by (simp add: rx_run_not_start del: rx_run.simps upt_Suc)
  ultimately show ?thesis by (simp del: rx_run.simps upt_Suc)
qed

lemma rx_exec_regExp:
  "rx_exec regExp u =
     map_option (\<lambda>(e, c) k. map_option (\<lambda>(a, b). take (b - a) (drop a u)) (c k))
       (map_option (\<lambda>(j, c'). (j, c'(0 \<mapsto> (0, j))))
          (first_of (rx_run regExp u (0, Map.empty))))"
  unfolding rx_exec_def concat_map_start
  by (simp add: first_of_map del: rx_run.simps(5))

lemma regExp_group2: "rx_exec regExp u = Some match \<Longrightarrow> match 2 \<noteq> None"
proof -
  assume a: "rx_exec regExp u = Some match"
  then obtain r where r: "first_of (rx_run regExp u (0, Map.empty)) = Some r"
    unfolding rx_exec_regExp by auto
  from first_of_regExp[OF r] obtain p where "snd r 2 = Some p" by blast
  with a r show ?thesis
    unfolding rx_exec_regExp by (cases r) auto
qed

lemma marker_len_Nil [simp]: "marker_len [] = None"
  by (simp add: marker_len_def starts_def js_def)

lemma marker_len_bound: "marker_len (drop j u) = Some n \<Longrightarrow> j < length u"
  by (rule ccontr) simp

text \<open>
  The function in direct terms: the last index of the first line at which a marker matches
  decides; the token after that marker is returned when it has 11 code units.
\<close>

lemma extractVideoId_eq:
  "extractVideoId u =
     (case find (\<lambda>j. marker_len (drop j u) \<noteq> None) (rev [0 ..< Suc (length (takeWhile dot u))]) of
        None \<Rightarrow> None
      | Some j \<Rightarrow>
          (case token_after u j of
             None \<Rightarrow> None
           | Some t \<Rightarrow> if length t = 11 then Some t else None))"
proof (cases "first_of (rx_run regExp u (0, Map.empty))")
  case None
  then have "find (\<lambda>j. marker_len (drop j u) \<noteq> None)
               (rev [0 ..< Suc (length (takeWhile dot u))]) = None"
    by (simp only: first_of_regExp_None)
  with None show ?thesis
    by (simp add: extractVideoId_def rx_exec_regExp)
next
  case (Some r)
  from first_of_regExp[OF Some] obtain j n where
    j: "find (\<lambda>j. marker_len (drop j u) \<noteq> None)
          (rev [0 ..< Suc (length (takeWhile dot u))]) = Some j"
    and n: "marker_len (drop j u) = Some n"
    and c: "snd r 2 = Some (j + n, j + n + length (takeWhile tokenChar (drop (j + n) u)))"
    by blast
  have t: "take (length (takeWhile tokenChar (drop (j + n) u))) (drop (j + n) u) =
           takeWhile tokenChar (drop (j + n) u)"
    by (rule takeWhile_eq_take[symmetric])
  obtain e cs where r: "r = (e, cs)" by (cases r)
  with c have "cs 2 = Some (j + n, j + n + length (takeWhile tokenChar (drop (j + n) u)))"
    by simp
  with Some r t have "extractVideoId u =
      (if length (takeWhile tokenChar (drop (j + n) u)) = 11
       then Some (takeWhile tokenChar (drop (j + n) u)) else None)"
    by (simp add: extractVideoId_def rx_exec_regExp)
  with j n show ?thesis
    by (simp add: token_after_def)
qed

section \<open>Video identifier extraction\<close>

text \<open>
  C10. For every input string, video identifier extraction returns either the
  "no identifier" result (null) or a string of exactly 11 code units; an identifier of any
  other length is never returned.
\<close>

theorem extractVideoId_length:
  "extractVideoId u = None \<or> (\<exists>t. extractVideoId u = Some t \<and> length t = 11)"
  by (simp add: extractVideoId_def split: option.split)

text \<open>The same at the short link of the scenario, where the identifier is found.\<close>

theorem extractVideoId_length_witness:
  "extractVideoId (js ''https://youtu.be/ABCDEFGHIJK'') = Some (js ''ABCDEFGHIJK'') \<and>
   length (js ''ABCDEFGHIJK'') = 11"
proof -
  have "extractVideoId (js ''https://youtu.be/ABCDEFGHIJK'') = Some (js ''ABCDEFGHIJK'')"
    by code_simp
  with extractVideoId_length[of "js ''https://youtu.be/ABCDEFGHIJK''"] show ?thesis
    by auto
qed

text \<open>
  C2, as the code has it. When a URL holds a recognised marker (the dot of \<open>youtu.be/\<close>
  standing for any code unit but a line terminator, as the pattern is written) followed by
  a token of exactly 11 code units that ends at the end of the URL or before \<open>#\<close>, \<open>&\<close> or
  \<open>?\<close>, and no line terminator comes before that marker and no marker begins after it, then
  extraction returns that token. When the URL holds no marker followed by such a token at
  all, extraction returns the "no identifier" result. The function is pure.
\<close>

theorem extractVideoId_last_marker:
  "(video_link u j tok \<and> list_all dot (take j u) \<and> no_marker_after u j \<longrightarrow>
      extractVideoId u = Some tok) \<and>
   (\<not> has_video_link u \<longrightarrow> extractVideoId u = None)"
proof (intro conjI impI)
  let ?L = "length (takeWhile dot u)"
  let ?P = "\<lambda>j. marker_len (drop j u) \<noteq> None"
  assume a: "video_link u j tok \<and> list_all dot (take j u) \<and> no_marker_after u j"
  then obtain n where n: "marker_len (drop j u) = Some n"
    by (auto simp: video_link_def token_after_def)
  then have lt: "j < length u" by (rule marker_len_bound)
  with a have le: "j \<le> ?L" by (intro prefix_le_takeWhile) simp_all
  have "\<not> ?P k" if "j < k" for k
  proof (cases "k < length u")
    case True
    with a that show ?thesis by (simp add: no_marker_after_def list_all_iff)
  next
    case False
    then show ?thesis by simp
  qed
  with n le have "find ?P (rev [0 ..< Suc ?L]) = Some j"
    unfolding find_last_upto by simp
  with a show "extractVideoId u = Some tok"
    by (simp add: extractVideoId_eq video_link_def)
next
  assume a: "\<not> has_video_link u"
  show "extractVideoId u = None"
  proof (rule ccontr)
    assume "extractVideoId u \<noteq> None"
    then obtain j t where "token_after u j = Some t" and "length t = 11"
      unfolding extractVideoId_eq by (auto split: option.splits if_splits)
    moreover from this have "j < length u"
      by (auto simp: token_after_def dest: marker_len_bound)
    ultimately have "has_video_link u"
      unfolding has_video_link_def list_ex_iff
      by (intro bexI[of _ j]) simp_all
    with a show False by contradiction
  qed
qed

text \<open>
  A watch link with a further parameter yields its identifier, and a link of a shape the
  pattern does not know yields none.
\<close>

theorem extractVideoId_last_marker_witness:
  "video_link link_with_parameter 24 (js ''ABCDEFGHIJK'') \<and>
   list_all dot (take 24 link_with_parameter) \<and>
   no_marker_after link_with_parameter 24 \<and>
   extractVideoId link_with_parameter = Some (js ''ABCDEFGHIJK'') \<and>
   \<not> has_video_link (js shorts_link) \<and>
   extractVideoId (js shorts_link) = None"
proof -
  have 1: "video_link link_with_parameter 24 (js ''ABCDEFGHIJK'')"
    by code_simp
  have 2: "list_all dot (take 24 link_with_parameter)"
    by code_simp
  have 3: "no_marker_after link_with_parameter 24"
    by code_simp
  have 4: "\<not> has_video_link (js shorts_link)"
    by code_simp
  from 1 2 3 4
    extractVideoId_last_marker[of link_with_parameter 24 "js ''ABCDEFGHIJK''"]
    extractVideoId_last_marker[of "js shorts_link"]
  show ?thesis by blast
qed

text \<open>
  C2 as it is stated fails: in this embed link the marker \<open>embed/\<close> at index 24 is followed
  by the 11 code units \<open>ABCDEFGHIJK\<close> and then by \<open>?\<close>, but the \<open>origin\<close> parameter ends in
  \<open>tv/\<close>; the greedy \<open>^.*\<close> takes that last \<open>v/\<close>, the token after it is empty, and the
  result is the "no identifier" result.
\<close>

theorem extractVideoId_later_marker_counterexample:
  "video_link link_with_later_marker 24 (js ''ABCDEFGHIJK'') \<and>
   extractVideoId link_with_later_marker = None"
  by code_simp

section \<open>Numbering of segments\<close>

lemma enumerate_shift:
  "map (\<lambda>(i, x). f (n + i) x) (enumerate k xs) = map (\<lambda>(i, x). f i x) (enumerate (n + k) xs)"
  by (induction xs arbitrary: k) simp_all

lemma number_from_enumerate:
  "number_from n xs = map (\<lambda>(i, x). with_number i x) (enumerate n xs)"
  using enumerate_shift[of with_number n 0 xs] by (simp add: number_from_def)

lemma length_number_from [simp]: "length (number_from n xs) = length xs"
  by (simp add: number_from_def)

lemma number_from_Nil [simp]: "number_from n [] = []"
  by (simp add: number_from_def)

lemma number_from_Cons: "number_from n (x # xs) = with_number n x # number_from (Suc n) xs"
  by (simp add: number_from_enumerate)


lemma numbers_number_from: "map sentence_number (number_from n xs) = [n ..< n + length xs]"
  by (induction xs arbitrary: n) (simp_all add: number_from_Cons with_number_def upt_rec)

lemma keys_number_from [simp]: "map key (number_from n xs) = map key xs"
  by (induction xs arbitrary: n) (simp_all add: number_from_Cons with_number_def)

lemma key_last_number_from:
  assumes "xs \<noteq> []"
  shows "key (last (number_from n xs)) = key (last xs)"
proof -
  from assms have "number_from n xs \<noteq> []"
    by (metis length_number_from length_0_conv)
  then have "last (map key (number_from n xs)) = key (last (number_from n xs))"
    by (rule last_map)
  moreover have "last (map key xs) = key (last xs)"
    using assms by (rule last_map)
  ultimately show ?thesis by simp
qed

section \<open>The effect and the polling callback\<close>

lemma commit_fields [simp]:
  "url (commit s) = url s" "taskId (commit s) = taskId s" "sentences (commit s) = sentences s"
  "lastKey (commit s) = lastKey s" "isProcessing (commit s) = isProcessing s"
  "progress (commit s) = progress s" "console (commit s) = console s"
  "requests (commit s) = requests s" "seekCalls (commit s) = seekCalls s"
  by (simp_all add: commit_def effect_def split: option.split)

lemma commit_synced:
  "(effectDeps s = Some (deps s) \<Longrightarrow> synced s) \<Longrightarrow> synced (commit s)"
  by (auto simp: commit_def effect_def synced_def deps_def split: option.split)

lemma pollCallback_frame [simp]:
  "url (pollCallback c a b s) = url s" "taskId (pollCallback c a b s) = taskId s"
  "seekCalls (pollCallback c a b s) = seekCalls s"
  "effectDeps (pollCallback c a b s) = effectDeps s"
  by (simp_all add: pollCallback_def log_polling_def Let_def split: sum.split)

lemma pollCallback_sentences:
  "sentences (pollCallback c a b s) =
     sentences s @ number_from (t_count c + 1)
       (case a of Inl e \<Rightarrow> []
        | Inr st \<Rightarrow> (case b of Inl e \<Rightarrow> [] | Inr data \<Rightarrow> res_sentences data))"
  by (simp add: pollCallback_def log_polling_def Let_def split: sum.split)

lemma pollCallback_lastKey:
  "lastKey (pollCallback c a b s) =
     (case a of Inl e \<Rightarrow> lastKey s
      | Inr st \<Rightarrow> (case b of Inl e \<Rightarrow> lastKey s
          | Inr data \<Rightarrow> if res_sentences data = [] then lastKey s else last_key data))"
  by (simp add: pollCallback_def log_polling_def Let_def split: sum.split)

lemma pollCallback_timer:
  "pollInterval (pollCallback c a b s) = None \<or>
   pollInterval (pollCallback c a b s) = pollInterval s"
  by (simp add: pollCallback_def log_polling_def Let_def split: sum.split)

text \<open>Every event leaves the interval holding the values of the current render.\<close>

lemma tick_synced: "synced s \<Longrightarrow> synced (tick r s)"
proof (cases "pollInterval s")
  case None
  assume "synced s"
  with None show ?thesis by (simp add: tick_def)
next
  case (Some c)
  assume sy: "synced s"
  let ?s' = "pollCallback c (fst r) (snd r) s"
  have "synced ?s'" if "effectDeps ?s' = Some (deps ?s')"
  proof -
    from that sy have d: "deps ?s' = deps s" by (simp add: synced_def)
    then have "sentences ?s' = sentences s" "lastKey ?s' = lastKey s"
      using pollCallback_sentences[of c "fst r" "snd r" s]
      by (simp_all add: deps_def)
    moreover from pollCallback_timer[of c "fst r" "snd r" s]
    have "pollInterval ?s' = None \<or> pollInterval ?s' = pollInterval s" .
    ultimately show ?thesis using sy that Some
      by (auto simp: synced_def)
  qed
  then have "synced (commit ?s')" by (rule commit_synced)
  with Some show ?thesis by (simp add: tick_def)
qed

lemma synced_events:
  "synced (commit App)"
  "synced s \<Longrightarrow> synced (commit (setUrl v s))"
  "synced s \<Longrightarrow> synced (commit (startProcessing response s))"
  "synced s \<Longrightarrow> synced (commit (seekToTime timeStr s))"
proof -
  show "synced (commit App)"
    by (rule commit_synced) (simp add: App_def)
  show "synced s \<Longrightarrow> synced (commit (setUrl v s))"
    by (rule commit_synced) (auto simp: setUrl_def synced_def deps_def split: option.splits)
  show "synced s \<Longrightarrow> synced (commit (seekToTime timeStr s))"
    by (rule commit_synced) (auto simp: seekToTime_def synced_def deps_def split: option.splits)
  show "synced s \<Longrightarrow> synced (commit (startProcessing response s))"
    by (rule commit_synced, cases response)
       (auto simp: startProcessing_def synced_def deps_def Let_def split: option.splits)
qed

lemma tick_sentences:
  "synced s \<Longrightarrow>
   sentences (tick r s) = sentences s @ number_from (length (sentences s) + 1) (delivered r s)"
  by (cases "pollInterval s")
    (simp_all add: tick_def delivered_def pollCallback_sentences synced_def)


text \<open>
  In every state of the component the interval is in step with the render, and the
  sequence numbers of the transcript are 1, 2, ... without a gap.
\<close>

lemma reachable_synced: "reachable s \<Longrightarrow> synced s"
  by (induction rule: reachable.induct) (simp_all add: synced_events tick_synced)

lemma reachable_numbers:
  "reachable s \<Longrightarrow> map sentence_number (sentences s) = [1 ..< Suc (length (sentences s))]"
proof (induction rule: reachable.induct)
  case mount
  show ?case by (simp add: App_def)
next
  case (onChange s v)
  then show ?case by (simp add: setUrl_def del: upt_Suc)
next
  case (onClick_start s response)
  then show ?case by (cases response) (simp_all add: startProcessing_def Let_def)
next
  case (interval s r)
  let ?n = "length (sentences s)" and ?m = "length (delivered r s)"
  have t: "sentences (tick r s) = sentences s @ number_from (Suc ?n) (delivered r s)"
    using tick_sentences[OF reachable_synced[OF interval.hyps], of r] by simp
  then have "map sentence_number (sentences (tick r s)) =
          [1 ..< Suc ?n] @ [Suc ?n ..< Suc ?n + ?m]"
    using interval.IH by (simp add: numbers_number_from del: upt_Suc)
  also have "\<dots> = [1 ..< Suc ?n + ?m]"
    using upt_add_eq_append[of 1 "Suc ?n" ?m] by (simp del: upt_Suc)
  also have "Suc ?n + ?m = Suc (length (sentences (tick r s)))"
    using t by simp
  finally show ?case .
next
  case (onClick_sentence s x)
  have "sentences (seekToTime (start_time x) s) = sentences s"
    by (simp add: seekToTime_def)
  with onClick_sentence.IH show ?case by (simp del: upt_Suc)
qed

lemma ticks_no_timer: "pollInterval s = None \<Longrightarrow> ticks rs s = s"
  by (induction rs) (simp_all add: tick_def)



text \<open>
  The quotient 29/200 is not a double: the nearest one lies below it, the product with 100
  is 14.499999999999998 and is rounded to 14, where 14.5 would go up to 15.
\<close>

lemma percentage_in_doubles: "percentage 29 200 = 14"
  by code_simp

lemma startProcessing_progress: "progress (startProcessing response s) = progress s"
  by (cases response) (simp_all add: startProcessing_def Let_def)

text \<open>The state of the scenario after submission: the interval is live and in step.\<close>

lemma task1_synced: "synced task1"
  by code_simp

lemma task1_timer:
  "pollInterval task1 =
     Some \<lparr>t_taskId = js ''t1'', t_lastKey = None, t_count = 0, t_delay = 2500\<rparr>"
  by code_simp


section \<open>Accumulated transcript\<close>



section \<open>Pagination cursor\<close>

text \<open>
  C3, as the code has it. After a polling tick whose transcript response holds a non-empty
  list of new segments, the cursor equals the \<open>last_key\<close> field of that response, the value
  the server provides; it is the key of the last segment appended whenever the server sets
  \<open>last_key\<close> to that key.
\<close>

theorem cursor_after_tick:
  assumes "pollInterval s \<noteq> None" and "res_sentences data \<noteq> []"
  shows "lastKey (tick (Inr st, Inr data) s) = last_key data \<and>
         (last_key data = Some (key (last (res_sentences data))) \<longrightarrow>
            lastKey (tick (Inr st, Inr data) s) =
              Some (key (last (sentences (tick (Inr st, Inr data) s)))))"
proof -
  from assms(1) obtain c where c: "pollInterval s = Some c" by auto
  have k: "lastKey (tick (Inr st, Inr data) s) = last_key data"
    using c assms(2) by (simp add: tick_def pollCallback_lastKey)
  have "sentences (tick (Inr st, Inr data) s) =
          sentences s @ number_from (t_count c + 1) (res_sentences data)"
    using c by (simp add: tick_def pollCallback_sentences)
  moreover have "number_from (t_count c + 1) (res_sentences data) \<noteq> []"
    using assms(2) by (metis length_number_from length_0_conv)
  ultimately have "key (last (sentences (tick (Inr st, Inr data) s))) =
      key (last (res_sentences data))"
    using assms(2) by (simp add: key_last_number_from)
  with k show ?thesis by simp
qed

text \<open>The first tick of the scenario: segments \<open>k1\<close>, \<open>k2\<close> and \<open>last_key\<close> \<open>k2\<close>.\<close>

theorem cursor_after_tick_witness:
  "pollInterval task1 \<noteq> None \<and>
   res_sentences \<lparr>res_sentences = [seg ''k1'' ''00:00:01'', seg ''k2'' ''00:01:05''],
                  last_key = Some (js ''k2'')\<rparr> \<noteq> [] \<and>
   last_key \<lparr>res_sentences = [seg ''k1'' ''00:00:01'', seg ''k2'' ''00:01:05''],
             last_key = Some (js ''k2'')\<rparr> =
     Some (key (last (res_sentences
       \<lparr>res_sentences = [seg ''k1'' ''00:00:01'', seg ''k2'' ''00:01:05''],
        last_key = Some (js ''k2'')\<rparr>))) \<and>
   lastKey (tick (Inr \<lparr>status = js ''processing'', processed_chunks = 1, total_chunks = 4\<rparr>,
                  Inr \<lparr>res_sentences = [seg ''k1'' ''00:00:01'', seg ''k2'' ''00:01:05''],
                       last_key = Some (js ''k2'')\<rparr>) task1) = Some (js ''k2'')"
proof -
  let ?data = "\<lparr>res_sentences = [seg ''k1'' ''00:00:01'', seg ''k2'' ''00:01:05''],
                 last_key = Some (js ''k2'')\<rparr>"
  let ?st = "\<lparr>status = js ''processing'', processed_chunks = 1, total_chunks = 4\<rparr>"
  have 1: "pollInterval task1 \<noteq> None"
    by (simp add: task1_timer)
  have 2: "res_sentences ?data \<noteq> []"
    by simp
  have 3: "last_key ?data = Some (key (last (res_sentences ?data)))"
    by (simp add: seg_def)
  from cursor_after_tick[OF 1 2, of ?st] have "lastKey (tick (Inr ?st, Inr ?data) task1) = last_key ?data"
    by blast
  with 1 2 3 show ?thesis by simp
qed

text \<open>
  C3 as it is stated fails for a response whose \<open>last_key\<close> is not the key of its last
  segment: the cursor becomes \<open>k9\<close>, the last segment appended has the key \<open>k1\<close>.
\<close>

theorem cursor_counterexample:
  "lastKey (tick (reply ''processing'' 1 4 [seg ''k1'' ''00:00:01''] ''k9'') task1) =
     Some (js ''k9'') \<and>
   key (last (sentences (tick (reply ''processing'' 1 4 [seg ''k1'' ''00:00:01''] ''k9'') task1))) =
     js ''k1''"
  by code_simp

section \<open>Progress\<close>



text \<open>
  C9 fails on the code. \<open>startProcessing\<close> resets the transcript and the cursor but never
  Progress, and nothing else resets it: after a task that ended at 100, the next submission
  shows the progress bar (the Processing Flag is true) at 100 until a status response of
  the new task with a positive total arrives.
\<close>

theorem startProcessing_keeps_progress:
  "progress (tick poll_done task1) = 100 \<and>
   progress (commit (startProcessing (Inr \<lparr>task_id = Some (js ''t2'')\<rparr>) (tick poll_done task1))) = 100 \<and>
   isProcessing (commit (startProcessing (Inr \<lparr>task_id = Some (js ''t2'')\<rparr>) (tick poll_done task1)))"
  by code_simp

section \<open>Submission\<close>

text \<open>
  C5. Given a non-empty URL, submission issues one start-processing request; on success it
  stores the returned task handle and sets the Processing Flag true, with the transcript
  cleared and the cursor reset to null; on failure it logs and resets the Processing Flag
  to false, and issues no second request. Given an empty URL, submission does nothing.
\<close>

theorem startProcessing_contract:
  "(url s = [] \<longrightarrow> startProcessing response s = s) \<and>
   (url s \<noteq> [] \<longrightarrow>
      requests (startProcessing response s) = requests s @ [POST_start_processing (url s)] \<and>
      sentences (startProcessing response s) = [] \<and>
      lastKey (startProcessing response s) = None) \<and>
   (url s \<noteq> [] \<and> response = Inr data \<longrightarrow>
      taskId (startProcessing response s) = task_id data \<and>
      isProcessing (startProcessing response s) \<and>
      console (startProcessing response s) = console s) \<and>
   (url s \<noteq> [] \<and> response = Inl e \<longrightarrow>
      console (startProcessing response s) =
        console s @ [(''Failed to start processing:'', e)] \<and>
      \<not> isProcessing (startProcessing response s) \<and>
      taskId (startProcessing response s) = taskId s)"
  by (cases response) (simp_all add: startProcessing_def Let_def)

text \<open>A typed URL submitted with success and with a failed request, and no URL at all.\<close>

theorem startProcessing_contract_witness:
  "url (typed ''https://youtu.be/ABCDEFGHIJK'') \<noteq> [] \<and>
   taskId (startProcessing (Inr \<lparr>task_id = Some (js ''t1'')\<rparr>)
             (typed ''https://youtu.be/ABCDEFGHIJK'')) = Some (js ''t1'') \<and>
   isProcessing (startProcessing (Inr \<lparr>task_id = Some (js ''t1'')\<rparr>)
             (typed ''https://youtu.be/ABCDEFGHIJK'')) \<and>
   \<not> isProcessing (startProcessing (Inl NetworkError) (typed ''https://youtu.be/ABCDEFGHIJK'')) \<and>
   url (commit App) = [] \<and>
   startProcessing (Inl NetworkError) (commit App) = commit App"
proof -
  let ?s = "typed ''https://youtu.be/ABCDEFGHIJK''"
  have 1: "url ?s \<noteq> []"
    by code_simp
  have 2: "url (commit App) = []"
    by (simp add: App_def)
  from 1 2
    startProcessing_contract[of ?s "Inr \<lparr>task_id = Some (js ''t1'')\<rparr>"
      "\<lparr>task_id = Some (js ''t1'')\<rparr>"]
    startProcessing_contract[of ?s "Inl NetworkError" _ NetworkError]
    startProcessing_contract[of "commit App" "Inl NetworkError"]
  show ?thesis by simp
qed

section \<open>Polling failures\<close>

text \<open>
  C7. For every polling tick in which a request fails, the error is logged and that is all
  the error branch does: the state after the tick is the state the \<open>try\<close> block had reached
  (the requests sent, and Progress when the status request had succeeded) with one more
  line on the console. The interval is not stopped and keeps its period of 2500 ms, the
  Processing Flag, the transcript and the cursor are as before, and the next tick sends the
  status request again.
\<close>

theorem polling_error_logged_only:
  assumes "synced s" and "pollInterval s = Some c"
  shows "tick (Inl e, tr) s =
           s\<lparr>requests := requests s @ [GET_task_status (t_taskId c)],
             console := console s @ [(''Polling error:'', e)]\<rparr> \<and>
         tick (Inr st, Inl e) s =
           s\<lparr>progress := (if 0 < total_chunks st
                           then percentage (processed_chunks st) (total_chunks st)
                           else progress s),
             requests := requests s @
               [GET_task_status (t_taskId c),
                GET_transcript (t_taskId c) (if truthy (lastKey s) then lastKey s else None)],
             console := console s @ [(''Polling error:'', e)]\<rparr> \<and>
         (\<forall>r. r = (Inl e, tr) \<or> r = (Inr st, Inl e) \<longrightarrow>
            pollInterval (tick r s) = Some c \<and> t_delay c = 2500 \<and>
            isProcessing (tick r s) = isProcessing s \<and>
            sentences (tick r s) = sentences s \<and> lastKey (tick r s) = lastKey s \<and>
            (\<forall>r'. take (Suc (length (requests (tick r s)))) (requests (tick r' (tick r s))) =
                    requests (tick r s) @ [GET_task_status (t_taskId c)]))"
proof -
  have d: "effectDeps s = Some (deps s)" "t_lastKey c = lastKey s" "t_delay c = 2500"
    using assms by (simp_all add: synced_def)
  have a: "tick (Inl e, tr) s =
           s\<lparr>requests := requests s @ [GET_task_status (t_taskId c)],
             console := console s @ [(''Polling error:'', e)]\<rparr>"
    using assms(2) d
    by (simp add: tick_def pollCallback_def log_polling_def Let_def commit_def deps_def)
  have b: "tick (Inr st, Inl e) s =
           s\<lparr>progress := (if 0 < total_chunks st
                           then percentage (processed_chunks st) (total_chunks st)
                           else progress s),
             requests := requests s @
               [GET_task_status (t_taskId c),
                GET_transcript (t_taskId c) (if truthy (lastKey s) then lastKey s else None)],
             console := console s @ [(''Polling error:'', e)]\<rparr>"
    using assms(2) d
    by (simp add: tick_def pollCallback_def log_polling_def Let_def commit_def deps_def)
  have n: "take (Suc (length (requests s'))) (requests (tick r' s')) =
             requests s' @ [GET_task_status (t_taskId c)]"
    if "pollInterval s' = Some c" for s' r'
    using that
    by (cases "fst r'"; cases "snd r'")
       (simp_all add: tick_def pollCallback_def log_polling_def Let_def)
  have r: "pollInterval (tick r s) = Some c \<and> t_delay c = 2500 \<and>
            isProcessing (tick r s) = isProcessing s \<and>
            sentences (tick r s) = sentences s \<and> lastKey (tick r s) = lastKey s \<and>
            (\<forall>r'. take (Suc (length (requests (tick r s)))) (requests (tick r' (tick r s))) =
                    requests (tick r s) @ [GET_task_status (t_taskId c)])"
    if "r = (Inl e, tr) \<or> r = (Inr st, Inl e)" for r
  proof -
    from that a b have eq:
      "tick r s =
         s\<lparr>requests := requests s @ [GET_task_status (t_taskId c)],
           console := console s @ [(''Polling error:'', e)]\<rparr> \<or>
       tick r s =
         s\<lparr>progress := (if 0 < total_chunks st
                         then percentage (processed_chunks st) (total_chunks st)
                         else progress s),
           requests := requests s @
             [GET_task_status (t_taskId c),
              GET_transcript (t_taskId c) (if truthy (lastKey s) then lastKey s else None)],
           console := console s @ [(''Polling error:'', e)]\<rparr>"
      by auto
    then have p: "pollInterval (tick r s) = Some c"
      using assms(2) by auto
    from eq have f: "isProcessing (tick r s) = isProcessing s"
      "sentences (tick r s) = sentences s" "lastKey (tick r s) = lastKey s"
      by auto
    from n[OF p] p f d(3) show ?thesis by blast
  qed
  from a b r show ?thesis by blast
qed

text \<open>
  The submitted task of the scenario, with a status request that fails and with a
  transcript request that fails after the status 1 of 4 has arrived.
\<close>

theorem polling_error_logged_only_witness:
  "synced task1 \<and>
   pollInterval task1 =
     Some \<lparr>t_taskId = js ''t1'', t_lastKey = None, t_count = 0, t_delay = 2500\<rparr> \<and>
   tick (Inl NetworkError, Inl NetworkError) task1 =
     task1\<lparr>requests := requests task1 @ [GET_task_status (js ''t1'')],
           console := console task1 @ [(''Polling error:'', NetworkError)]\<rparr> \<and>
   pollInterval (tick (Inl NetworkError, Inl NetworkError) task1) = pollInterval task1 \<and>
   isProcessing (tick (Inl NetworkError, Inl NetworkError) task1) = isProcessing task1 \<and>
   pollInterval (tick (reply_failed ''processing'' 1 4) task1) = pollInterval task1 \<and>
   isProcessing (tick (reply_failed ''processing'' 1 4) task1) = isProcessing task1 \<and>
   sentences (tick (reply_failed ''processing'' 1 4) task1) = sentences task1"
proof -
  let ?c = "\<lparr>t_taskId = js ''t1'', t_lastKey = None, t_count = 0, t_delay = 2500\<rparr>"
  let ?st = "\<lparr>status = js ''processing'', processed_chunks = 1, total_chunks = 4\<rparr>"
  have f: "reply_failed ''processing'' 1 4 = (Inr ?st, Inl NetworkError)"
    by (simp add: reply_failed_def)
  from polling_error_logged_only[OF task1_synced task1_timer,
      of NetworkError "Inl NetworkError" ?st]
  have "tick (Inl NetworkError, Inl NetworkError) task1 =
          task1\<lparr>requests := requests task1 @ [GET_task_status (t_taskId ?c)],
                console := console task1 @ [(''Polling error:'', NetworkError)]\<rparr>"
    and "pollInterval (tick (Inl NetworkError, Inl NetworkError) task1) = Some ?c"
    and "isProcessing (tick (Inl NetworkError, Inl NetworkError) task1) = isProcessing task1"
    and "pollInterval (tick (Inr ?st, Inl NetworkError) task1) = Some ?c"
    and "isProcessing (tick (Inr ?st, Inl NetworkError) task1) = isProcessing task1"
    and "sentences (tick (Inr ?st, Inl NetworkError) task1) = sentences task1"
    by blast+
  with task1_synced task1_timer show ?thesis
    unfolding f by simp
qed

section \<open>Completion\<close>

text \<open>
  C6, as the code has it. On a polling tick in which both requests succeed and whose status
  response has status "completed", the callback stops its interval and the Processing Flag
  is false after the tick; when that tick brought no new segments, no interval is live
  after it and no further tick takes place.
\<close>

theorem completed_tick_stops:
  assumes "synced s" and "pollInterval s = Some c" and "status st = js ''completed''"
  shows "pollInterval (pollCallback c (Inr st) (Inr data) s) = None \<and>
         \<not> isProcessing (tick (Inr st, Inr data) s) \<and>
         (res_sentences data = [] \<longrightarrow>
            pollInterval (tick (Inr st, Inr data) s) = None \<and>
            (\<forall>rs. ticks rs (tick (Inr st, Inr data) s) = tick (Inr st, Inr data) s))"
proof -
  have 1: "pollInterval (pollCallback c (Inr st) (Inr data) s) = None"
    using assms(3) by (simp add: pollCallback_def Let_def)
  have 2: "\<not> isProcessing (tick (Inr st, Inr data) s)"
    using assms(2,3) by (simp add: tick_def pollCallback_def Let_def)
  have 3: "pollInterval (tick (Inr st, Inr data) s) = None" if "res_sentences data = []"
    using assms that
    by (simp add: tick_def pollCallback_def Let_def commit_def deps_def synced_def)
  from 1 2 3 show ?thesis by (simp add: ticks_no_timer)
qed

text \<open>The submitted task of the scenario completes in a tick without new segments.\<close>

theorem completed_tick_stops_witness:
  "synced task1 \<and>
   pollInterval task1 =
     Some \<lparr>t_taskId = js ''t1'', t_lastKey = None, t_count = 0, t_delay = 2500\<rparr> \<and>
   status \<lparr>status = js ''completed'', processed_chunks = 4, total_chunks = 4\<rparr> =
     js ''completed'' \<and>
   res_sentences \<lparr>res_sentences = [], last_key = None\<rparr> = [] \<and>
   \<not> isProcessing (tick poll_done task1) \<and>
   pollInterval (tick poll_done task1) = None \<and>
   ticks [poll1, poll2] (tick poll_done task1) = tick poll_done task1"
proof -
  let ?st = "\<lparr>status = js ''completed'', processed_chunks = 4, total_chunks = 4\<rparr>"
  let ?data = "\<lparr>res_sentences = [], last_key = None\<rparr> :: transcript_res"
  have 3: "status ?st = js ''completed''" by simp
  have 4: "res_sentences ?data = []" by simp
  have 5: "poll_done = (Inr ?st, Inr ?data)" by (simp add: poll_done_def)
  from completed_tick_stops[OF task1_synced task1_timer 3, of ?data] 4
  have "\<not> isProcessing (tick (Inr ?st, Inr ?data) task1)"
    and "pollInterval (tick (Inr ?st, Inr ?data) task1) = None"
    and "ticks [poll1, poll2] (tick (Inr ?st, Inr ?data) task1) = tick (Inr ?st, Inr ?data) task1"
    by blast+
  with task1_synced task1_timer 3 4 show ?thesis
    unfolding 5 by blast
qed

text \<open>
  C6 as it is stated fails when the transcript request of the tick fails: the status
  response says "completed", but the \<open>try\<close> block is left before its last statement, the
  interval stays live and the Processing Flag stays true.
\<close>

theorem completed_tick_counterexample:
  "pollInterval (tick (reply_failed ''completed'' 4 4) task1) \<noteq> None \<and>
   isProcessing (tick (reply_failed ''completed'' 4 4) task1)"
  by code_simp

text \<open>
  When the completing tick also brings new segments, two dependencies of the effect change;
  the effect runs again and sets a new interval, so that one more tick follows (here it
  sends the next status request). The statement above says nothing about this case.
\<close>

lemma completed_tick_with_segments:
  "pollInterval (ticks [poll1, poll2] task1) \<noteq> None \<and>
   \<not> isProcessing (ticks [poll1, poll2] task1) \<and>
   length (requests (tick poll_done (ticks [poll1, poll2] task1))) =
     length (requests (ticks [poll1, poll2] task1)) + 2"
  by code_simp

section \<open>Timestamp seek\<close>







end
